theory Spec2Isabelle
  imports Complex_Main "HOL-Library.Sublist" "HOL-Library.Log_Nat"
begin

section \<open>Recognised text\<close>

text \<open>
  The recognised text is a Python \<open>str\<close>. It is modelled as a \<^typ>\<open>string\<close> whose
  characters stand for the code points U+0000 to U+00FF (ASCII and Latin-1). On these code
  points \<open>str.lower\<close> works character by character: it moves \<open>A-Z\<close> and the Latin-1 capitals
  U+00C0 to U+00DE (the multiplication sign U+00D7 apart) up by 32 and leaves every other
  character alone. \<open>str.isspace\<close>, which both \<open>str.strip\<close> and the pattern \<open>\s\<close> use, holds of
  U+0009 to U+000D, U+001C to U+0020, U+0085 and U+00A0; \<open>\d\<close> holds of \<open>0-9\<close> only.
  The test \<open>keyword in text\<close> of Python is \<^const>\<open>sublist\<close>: a contiguous occurrence.
\<close>

definition is_ascii_upper :: "char \<Rightarrow> bool" where
  "is_ascii_upper c = (let n = (of_char c :: nat) in 65 \<le> n \<and> n \<le> 90)"

definition is_ascii_lower :: "char \<Rightarrow> bool" where
  "is_ascii_lower c = (let n = (of_char c :: nat) in 97 \<le> n \<and> n \<le> 122)"

definition is_digit :: "char \<Rightarrow> bool" where
  "is_digit c = (let n = (of_char c :: nat) in 48 \<le> n \<and> n \<le> 57)"

definition is_space :: "char \<Rightarrow> bool" where
  "is_space c = (let n = (of_char c :: nat) in
     (9 \<le> n \<and> n \<le> 13) \<or> (28 \<le> n \<and> n \<le> 32) \<or> n = 133 \<or> n = 160)"

definition lower_char :: "char \<Rightarrow> char" where
  "lower_char c = (let n = (of_char c :: nat) in
     if (65 \<le> n \<and> n \<le> 90) \<or> (192 \<le> n \<and> n \<le> 222 \<and> n \<noteq> 215)
     then char_of (n + 32) else c)"

definition lower :: "string \<Rightarrow> string" where
  "lower s = map lower_char s"

definition strip :: "string \<Rightarrow> string" where
  "strip s = rev (dropWhile is_space (rev (dropWhile is_space s)))"

section \<open>The patterns given to \<open>re.search\<close>\<close>

text \<open>
  The scorer only asks whether \<open>re.search\<close> finds a match, so a pattern is modelled by the
  set of strings it matches. \<^term>\<open>re_match r s\<close> says that some prefix of \<open>s\<close> matches \<open>r\<close>
  (it follows \<open>s\<close> while taking the derivative of \<open>r\<close>), and \<^term>\<open>re_search r s\<close> that a
  match starts at some position of \<open>s\<close>.
\<close>

datatype char_class = Digit | Upper | Lower | Space | Lit char

fun in_class :: "char_class \<Rightarrow> char \<Rightarrow> bool" where
  "in_class Digit c = is_digit c"
| "in_class Upper c = is_ascii_upper c"
| "in_class Lower c = is_ascii_lower c"
| "in_class Space c = is_space c"
| "in_class (Lit d) c = (c = d)"

datatype regex = Fail | Empty | Sym char_class | Cat regex regex | Alt regex regex | Star regex

primrec nullable :: "regex \<Rightarrow> bool" where
  "nullable Fail = False"
| "nullable Empty = True"
| "nullable (Sym k) = False"
| "nullable (Cat r s) = (nullable r \<and> nullable s)"
| "nullable (Alt r s) = (nullable r \<or> nullable s)"
| "nullable (Star r) = True"

primrec deriv :: "char \<Rightarrow> regex \<Rightarrow> regex" where
  "deriv c Fail = Fail"
| "deriv c Empty = Fail"
| "deriv c (Sym k) = (if in_class k c then Empty else Fail)"
| "deriv c (Cat r s) =
     (if nullable r then Alt (Cat (deriv c r) s) (deriv c s) else Cat (deriv c r) s)"
| "deriv c (Alt r s) = Alt (deriv c r) (deriv c s)"
| "deriv c (Star r) = Cat (deriv c r) (Star r)"

text \<open>\<open>r{m}\<close>, then \<open>r{0,n}\<close>, then \<open>r{m,n}\<close> and \<open>r+\<close>.\<close>

fun exactly :: "regex \<Rightarrow> nat \<Rightarrow> regex" where
  "exactly r 0 = Empty"
| "exactly r (Suc n) = Cat r (exactly r n)"

fun at_most :: "regex \<Rightarrow> nat \<Rightarrow> regex" where
  "at_most r 0 = Empty"
| "at_most r (Suc n) = Alt Empty (Cat r (at_most r n))"

definition repeat :: "regex \<Rightarrow> nat \<Rightarrow> nat \<Rightarrow> regex" where
  "repeat r m n = Cat (exactly r m) (at_most r (n - m))"

definition one_or_more :: "regex \<Rightarrow> regex" where
  "one_or_more r = Cat r (Star r)"

fun re_match :: "regex \<Rightarrow> string \<Rightarrow> bool" where
  "re_match r [] = nullable r"
| "re_match r (c # cs) = (nullable r \<or> re_match (deriv c r) cs)"

fun re_search :: "regex \<Rightarrow> string \<Rightarrow> bool" where
  "re_search r [] = nullable r"
| "re_search r (c # cs) = (re_match r (c # cs) \<or> re_search r cs)"

text \<open>
  The strings a pattern matches, as the usual inductive reading of regular expressions; the
  matcher above is checked against it below.
\<close>

inductive matches :: "regex \<Rightarrow> string \<Rightarrow> bool" where
  m_empty: "matches Empty []"
| m_sym: "in_class k c \<Longrightarrow> matches (Sym k) [c]"
| m_cat: "matches r u \<Longrightarrow> matches s v \<Longrightarrow> matches (Cat r s) (u @ v)"
| m_alt1: "matches r u \<Longrightarrow> matches (Alt r s) u"
| m_alt2: "matches s u \<Longrightarrow> matches (Alt r s) u"
| m_star0: "matches (Star r) []"
| m_star: "matches r u \<Longrightarrow> matches (Star r) v \<Longrightarrow> matches (Star r) (u @ v)"

definition digits :: "nat \<Rightarrow> nat \<Rightarrow> regex" where
  "digits m n = repeat (Sym Digit) m n"

definition uppers :: "nat \<Rightarrow> nat \<Rightarrow> regex" where
  "uppers m n = repeat (Sym Upper) m n"

definition slash :: regex where
  "slash = Sym (Lit CHR ''/'')"

text \<open>\<^verbatim>\<open>\d{2}/\d{2}/\d{4}\<close>\<close>

definition date_strict :: regex where
  "date_strict = Cat (digits 2 2) (Cat slash (Cat (digits 2 2) (Cat slash (digits 4 4))))"

text \<open>\<^verbatim>\<open>\d{1,2}/\d{1,2}/\d{2,4}\<close>\<close>

definition date_loose :: regex where
  "date_loose = Cat (digits 1 2) (Cat slash (Cat (digits 1 2) (Cat slash (digits 2 4))))"

text \<open>\<^verbatim>\<open>[A-Z]{2}\s*\d{6,8}\<close>\<close>

definition license_number_strict :: regex where
  "license_number_strict = Cat (uppers 2 2) (Cat (Star (Sym Space)) (digits 6 8))"

text \<open>\<^verbatim>\<open>[A-Z]{1,3}\s*\d{4,10}\<close>\<close>

definition license_number_loose :: regex where
  "license_number_loose = Cat (uppers 1 3) (Cat (Star (Sym Space)) (digits 4 10))"

text \<open>\<^verbatim>\<open>[A-Z]{2,3}\<close>\<close>

definition state_abbrev :: regex where
  "state_abbrev = uppers 2 3"

text \<open>\<^verbatim>\<open>[A-Z][a-z]+\<close>\<close>

definition capitalized :: regex where
  "capitalized = Cat (Sym Upper) (one_or_more (Sym Lower))"

text \<open>\<^verbatim>\<open>[A-Z][a-z]+\s+[A-Z][a-z]+\<close>\<close>

definition name_pattern :: regex where
  "name_pattern = Cat capitalized (Cat (one_or_more (Sym Space)) capitalized)"

section \<open>\<open>compare_faces\<close>\<close>

text \<open>
  Face encodings are opaque. The library's \<open>face_distance\<close> is a parameter of the model, and
  distances and similarities are real numbers. In this function the subtraction
  \<open>1 - face_distance\<close> and the comparison with 0.6 are taken exactly; the value the source
  returns is the rounding of the model's value to a float.

  To speak about which distances are computed, the model returns, next to the best match
  score, the list of pairs on which \<open>face_distance\<close> was called, in call order. The loop
  body is \<open>compare_inner\<close>; the two nested \<open>for\<close> loops are the two nested \<open>foldl\<close>. The
  \<open>tolerance\<close> parameter of the source is never read (the body tests against the literal 0.6)
  and is left out.
\<close>

definition compare_inner ::
  "('e \<Rightarrow> 'e \<Rightarrow> real) \<Rightarrow> 'e \<Rightarrow> real \<times> ('e \<times> 'e) list \<Rightarrow> 'e \<Rightarrow> real \<times> ('e \<times> 'e) list" where
  "compare_inner face_distance license_encoding st user_encoding =
     (let (best_match_score, calls) = st;
          d = face_distance license_encoding user_encoding;
          calls = calls @ [(license_encoding, user_encoding)];
          similarity_score = max 0 (1 - d)
      in if d \<le> 0.6 then
           (if similarity_score > best_match_score then (similarity_score, calls)
            else (best_match_score, calls))
         else (best_match_score, calls))"

definition compare_faces ::
  "('e \<Rightarrow> 'e \<Rightarrow> real) \<Rightarrow> 'e list \<Rightarrow> 'e list \<Rightarrow> real \<times> ('e \<times> 'e) list" where
  "compare_faces face_distance license_encodings user_encodings =
     (if license_encodings = [] \<or> user_encodings = [] then (0, [])
      else foldl (\<lambda>st license_encoding.
                    foldl (compare_inner face_distance license_encoding) st user_encodings)
             (0, []) license_encodings)"

section \<open>\<open>calculate_safety_score\<close>\<close>

text \<open>
  The face match score is a Python float, an IEEE binary64 number. A float is modelled by
  the real number it denotes, and \<^term>\<open>double x\<close> is the float nearest to the real \<open>x\<close>, ties
  going to the even significand: with \<open>e\<close> the binade of \<open>x\<close> (\<open>2^e \<le> |x| < 2^(e+1)\<close>, and no
  less than -1022, where the subnormal numbers begin) the floats around \<open>x\<close> are the multiples
  of \<open>2^(e-52)\<close>. A float literal of the source such as \<open>0.4\<close> is \<^term>\<open>double 0.4\<close>, and the
  product \<open>a * b\<close> of two floats is \<^term>\<open>double (a * b)\<close>; the integers 20 and 15 are floats.
  Magnitudes of \<open>2^1024\<close> and more, which Python turns into \<open>inf\<close>, are outside the model.
\<close>

definition round_half_even :: "real \<Rightarrow> int" where
  "round_half_even x =
     (let f = \<lfloor>x\<rfloor>; r = x - of_int f
      in if r < 1 / 2 then f else if 1 / 2 < r then f + 1 else if even f then f else f + 1)"

definition binade :: "real \<Rightarrow> int" where
  "binade x =
     (if 1 \<le> x then bitlen \<lfloor>x\<rfloor> - 1
      else max (- 1022) (- bitlen (\<lceil>1 / x\<rceil> - 1)))"

definition double :: "real \<Rightarrow> real" where
  "double x =
     (if x = 0 then 0
      else let q = 2 powi (binade \<bar>x\<bar> - 52)
           in of_int (round_half_even (x / q)) * q)"

text \<open>
  Python's \<open>int(x)\<close> on a float truncates towards zero. The score is a Python integer, hence
  an \<^typ>\<open>int\<close>. The function adds to one running \<open>score\<close>; each block of the source is a
  function from the score before the block to the score after it.
\<close>

definition py_int :: "real \<Rightarrow> int" where
  "py_int x = (if 0 \<le> x then \<lfloor>x\<rfloor> else \<lceil>x\<rceil>)"

definition face_match_stage :: "bool \<Rightarrow> real \<Rightarrow> int \<Rightarrow> int" where
  "face_match_stage is_license face_match_score score =
     (if face_match_score > double 0.4
      then score + 70 + py_int (double (face_match_score * 20))
      else if face_match_score > double 0.2
      then score + 50 + py_int (double (face_match_score * 15))
      else if is_license then score + 40
      else score + 20)"

definition license_keywords :: "(string \<times> int) list" where
  "license_keywords =
     [(''driver'', 2), (''license'', 2), (''identification'', 2), (''state'', 1), (''dmv'', 2),
      (''department'', 1), (''motor'', 1), (''vehicle'', 1), (''id'', 2), (''card'', 1)]"

definition keyword_stage :: "string \<Rightarrow> int \<Rightarrow> int" where
  "keyword_stage text_lower score =
     foldl (\<lambda>score (keyword, points). if sublist keyword text_lower then score + points else score)
       score license_keywords"

definition text_quality_stage :: "string \<Rightarrow> int \<Rightarrow> int" where
  "text_quality_stage text score =
     (let score = (if re_search date_strict text then score + 2
                   else if re_search date_loose text then score + 1 else score);
          score = (if re_search license_number_strict text then score + 2
                   else if re_search license_number_loose text then score + 1 else score);
          score = (if re_search state_abbrev text then score + 1 else score);
          score = (if length (strip text) > 20 then score + 1 else score);
          score = (if re_search name_pattern text then score + 1
                   else if re_search capitalized text then score + 1 else score)
      in score)"

definition license_fields :: "string list" where
  "license_fields =
     [''expires'', ''issued'', ''class'', ''restrictions'', ''endorsements'', ''date'', ''birth'',
      ''address'', ''height'', ''weight'', ''eyes'', ''hair'']"

definition confidence_stage :: "string \<Rightarrow> int \<Rightarrow> int" where
  "confidence_stage text_lower score =
     foldl (\<lambda>score field. if sublist field text_lower then score + 1 else score)
       score license_fields"

definition calculate_safety_score :: "string \<Rightarrow> bool \<Rightarrow> real \<Rightarrow> int" where
  "calculate_safety_score text is_license face_match_score =
     (let score = 0;
          text_lower = lower text;
          score = face_match_stage is_license face_match_score score;
          score = keyword_stage text_lower score;
          score = text_quality_stage text score;
          score = confidence_stage text_lower score;
          score = min score 100;
          score = max score 0
      in score)"

text \<open>What the three text blocks add to a score of 0: a function of the text alone.\<close>

definition text_points :: "string \<Rightarrow> int" where
  "text_points text =
     confidence_stage (lower text) (text_quality_stage text (keyword_stage (lower text) 0))"

section \<open>\<open>get_safety_status\<close> and \<open>get_confidence_level\<close>\<close>

definition get_safety_status :: "int \<Rightarrow> string" where
  "get_safety_status score =
     (if score \<ge> 80 then ''very_safe''
      else if score \<ge> 60 then ''safe''
      else if score \<ge> 40 then ''moderate''
      else if score \<ge> 25 then ''risky''
      else if score \<ge> 10 then ''unsafe''
      else ''rejected'')"

definition get_confidence_level :: "int \<Rightarrow> string" where
  "get_confidence_level score =
     (if score \<ge> 80 then ''very_high''
      else if score \<ge> 60 then ''high''
      else if score \<ge> 40 then ''medium''
      else if score \<ge> 25 then ''low''
      else if score \<ge> 10 then ''very_low''
      else ''minimal'')"

text \<open>
  The specification orders the labels from worst to best. The rank of a label is its
  position in that order.
\<close>

definition status_order :: "string list" where
  "status_order = [''rejected'', ''unsafe'', ''risky'', ''moderate'', ''safe'', ''very_safe'']"

definition confidence_order :: "string list" where
  "confidence_order = [''minimal'', ''very_low'', ''low'', ''medium'', ''high'', ''very_high'']"

definition rank :: "string list \<Rightarrow> string \<Rightarrow> nat" where
  "rank order label = length (takeWhile (\<lambda>l. l \<noteq> label) order)"

section \<open>The scoring part of the \<open>ocr\<close> handler\<close>

text \<open>
  Of the handler, the model has the classification of the text (\<open>is_license\<close>) and the
  \<open>score_breakdown\<close> entry of the response, as functions of the recognised text, the flag
  and the face match score. \<open>flag p b\<close> is the entry \<open>p if b else 0\<close> of the summed lists.
\<close>

definition document_keywords :: "string list" where
  "document_keywords =
     [''license'', ''driver'', ''id'', ''identification'', ''state'', ''dmv'', ''department'']"

definition ocr_is_license :: "string \<Rightarrow> bool" where
  "ocr_is_license text =
     (let text_lower = lower text
      in list_ex (\<lambda>keyword. sublist keyword text_lower) document_keywords)"

record score_breakdown =
  base_license_score :: int
  face_match_score :: int
  keyword_matches :: int
  text_quality :: int
  confidence_indicators :: int

definition flag :: "int \<Rightarrow> bool \<Rightarrow> int" where
  "flag points b = (if b then points else 0)"

definition ocr_score_breakdown :: "string \<Rightarrow> bool \<Rightarrow> real \<Rightarrow> score_breakdown" where
  "ocr_score_breakdown text is_license match_score =
     (let text_lower = lower text in
      \<lparr> base_license_score = (if is_license then 70 else 55),
        face_match_score = py_int (double (match_score * 15)),
        keyword_matches = sum_list
          [flag 2 (sublist ''driver'' text_lower), flag 2 (sublist ''license'' text_lower),
           flag 2 (sublist ''identification'' text_lower), flag 1 (sublist ''state'' text_lower),
           flag 2 (sublist ''dmv'' text_lower), flag 1 (sublist ''department'' text_lower),
           flag 1 (sublist ''motor'' text_lower), flag 1 (sublist ''vehicle'' text_lower),
           flag 2 (sublist ''id'' text_lower), flag 1 (sublist ''card'' text_lower)],
        text_quality = sum_list
          [flag 2 (re_search date_strict text), flag 1 (re_search date_loose text),
           flag 2 (re_search license_number_strict text),
           flag 1 (re_search license_number_loose text),
           flag 1 (re_search state_abbrev text), flag 1 (length (strip text) > 5),
           flag 1 (re_search name_pattern text), flag 1 (re_search capitalized text)],
        confidence_indicators = sum_list
          (map (\<lambda>field. flag 1 (sublist field text_lower)) license_fields) \<rparr>)"

section \<open>The words of the specification\<close>

text \<open>
  A keyword occurs in a text with case ignored when some contiguous part of the text reads
  as the keyword once both are put in lower case.
\<close>

definition occurs_ignoring_case :: "string \<Rightarrow> string \<Rightarrow> bool" where
  "occurs_ignoring_case keyword text =
     (\<exists>before part after. text = before @ part @ after \<and> lower part = lower keyword)"


section \<open>The matcher finds exactly the matches\<close>

inductive_cases m_failE: "matches Fail u"
inductive_cases m_emptyE: "matches Empty u"
inductive_cases m_symE: "matches (Sym k) u"
inductive_cases m_catE: "matches (Cat r s) u"
inductive_cases m_altE: "matches (Alt r s) u"

lemma nullable_matches: "nullable r \<longleftrightarrow> matches r []"
proof (induction r)
  case (Cat r s)
  then show ?case
    by (auto intro: m_cat[of r "[]" s "[]", simplified] elim!: m_catE)
qed (auto intro: matches.intros elim: m_failE m_emptyE m_symE m_altE)

lemma star_split:
  assumes "matches q w" and "q = Star r" and "w = c # u"
  shows "\<exists>v1 v2. u = v1 @ v2 \<and> matches r (c # v1) \<and> matches (Star r) v2"
  using assms
proof (induction q w arbitrary: u rule: matches.induct)
  case (m_star r' x v)
  show ?case
  proof (cases x)
    case Nil
    with m_star show ?thesis by simp
  next
    case (Cons a x')
    with m_star have "u = x' @ v" "matches r (c # x')" "matches (Star r) v"
      by simp_all
    then show ?thesis by blast
  qed
qed simp_all

lemma deriv_matches: "matches (deriv c r) u \<longleftrightarrow> matches r (c # u)"
proof (induction r arbitrary: u)
  case Fail
  show ?case by (auto elim: m_failE)
next
  case Empty
  show ?case by (auto elim: m_failE m_emptyE)
next
  case (Sym k)
  show ?case
    by (auto intro: m_empty m_sym[of k c] elim: m_failE m_emptyE m_symE)
next
  case (Cat r s)
  have "matches (Cat r s) (c # u) \<longleftrightarrow>
      (\<exists>v w. u = v @ w \<and> matches r (c # v) \<and> matches s w)
      \<or> (matches r [] \<and> matches s (c # u))"
  proof
    assume "matches (Cat r s) (c # u)"
    then obtain x y where xy: "c # u = x @ y" "matches r x" "matches s y"
      by (auto elim: m_catE)
    then show "(\<exists>v w. u = v @ w \<and> matches r (c # v) \<and> matches s w)
      \<or> (matches r [] \<and> matches s (c # u))"
      by (cases x) auto
  next
    assume "(\<exists>v w. u = v @ w \<and> matches r (c # v) \<and> matches s w)
      \<or> (matches r [] \<and> matches s (c # u))"
    then show "matches (Cat r s) (c # u)"
    proof
      assume "\<exists>v w. u = v @ w \<and> matches r (c # v) \<and> matches s w"
      then obtain v w where "u = v @ w" "matches r (c # v)" "matches s w" by blast
      then show ?thesis using m_cat[of r "c # v" s w] by simp
    next
      assume "matches r [] \<and> matches s (c # u)"
      then show ?thesis using m_cat[of r "[]" s "c # u"] by simp
    qed
  qed
  moreover have "matches (Cat (deriv c r) s) u \<longleftrightarrow>
      (\<exists>v w. u = v @ w \<and> matches r (c # v) \<and> matches s w)"
    using Cat.IH(1) by (auto intro: m_cat elim!: m_catE)
  ultimately show ?case
    using Cat.IH(2)[of u]
    by (auto simp: nullable_matches intro: m_alt1 m_alt2 elim!: m_altE)
next
  case (Alt r s)
  then show ?case
    by (auto intro: m_alt1 m_alt2 elim!: m_altE)
next
  case (Star r)
  have "matches (Cat (deriv c r) (Star r)) u \<longleftrightarrow>
      (\<exists>v w. u = v @ w \<and> matches r (c # v) \<and> matches (Star r) w)"
    using Star.IH by (auto intro: m_cat elim!: m_catE)
  also have "\<dots> \<longleftrightarrow> matches (Star r) (c # u)"
  proof
    assume "\<exists>v w. u = v @ w \<and> matches r (c # v) \<and> matches (Star r) w"
    then obtain v w where "u = v @ w" "matches r (c # v)" "matches (Star r) w" by blast
    then show "matches (Star r) (c # u)" using m_star[of r "c # v" w] by simp
  next
    assume "matches (Star r) (c # u)"
    then show "\<exists>v w. u = v @ w \<and> matches r (c # v) \<and> matches (Star r) w"
      using star_split by blast
  qed
  finally show ?case by simp
qed

lemma re_match_iff: "re_match r s \<longleftrightarrow> (\<exists>u v. s = u @ v \<and> matches r u)"
proof (induction s arbitrary: r)
  case Nil
  show ?case by (simp add: nullable_matches)
next
  case (Cons c cs)
  have "(\<exists>u v. c # cs = u @ v \<and> matches r u) \<longleftrightarrow>
      matches r [] \<or> (\<exists>u' v. cs = u' @ v \<and> matches r (c # u'))"
    by (auto simp: Cons_eq_append_conv)
  then show ?case
    by (simp add: Cons.IH nullable_matches deriv_matches)
qed

lemma re_search_iff:
  "re_search r s \<longleftrightarrow> (\<exists>before part after. s = before @ part @ after \<and> matches r part)"
proof (induction s)
  case Nil
  show ?case by (simp add: nullable_matches)
next
  case (Cons c cs)
  have "(\<exists>before part after. c # cs = before @ part @ after \<and> matches r part) \<longleftrightarrow>
      (\<exists>part after. c # cs = part @ after \<and> matches r part)
      \<or> (\<exists>before part after. cs = before @ part @ after \<and> matches r part)"
    (is "?L \<longleftrightarrow> ?A \<or> ?B")
  proof
    assume ?L
    then obtain before part after where
      s: "c # cs = before @ part @ after" and m: "matches r part" by blast
    show "?A \<or> ?B"
    proof (cases before)
      case Nil
      with s m show ?thesis by auto
    next
      case (Cons b before')
      with s have "cs = before' @ part @ after" by simp
      with m show ?thesis by blast
    qed
  next
    assume "?A \<or> ?B"
    then show ?L
    proof
      assume ?A
      then obtain part after where "c # cs = [] @ part @ after" "matches r part" by auto
      then show ?L by blast
    next
      assume ?B
      then obtain before part after where "cs = before @ part @ after" "matches r part"
        by blast
      then have "c # cs = (c # before) @ part @ after" by simp
      with \<open>matches r part\<close> show ?L by blast
    qed
  qed
  then show ?case
    using Cons.IH re_match_iff[of r "c # cs"] by simp
qed

text \<open>Bounded repetition, \<open>*\<close> and \<open>+\<close> read as concatenations of matches of the body.\<close>

lemma cat_matches:
  "matches (Cat r s) u \<longleftrightarrow> (\<exists>x y. u = x @ y \<and> matches r x \<and> matches s y)"
  by (auto intro: m_cat elim!: m_catE)

lemma empty_matches: "matches Empty u \<longleftrightarrow> u = []"
  by (auto intro: m_empty elim: m_emptyE)

lemma alt_matches: "matches (Alt r s) u \<longleftrightarrow> matches r u \<or> matches s u"
  by (auto intro: m_alt1 m_alt2 elim: m_altE)

lemma exactly_matches:
  "matches (exactly r n) u \<longleftrightarrow>
     (\<exists>us. length us = n \<and> u = concat us \<and> (\<forall>x \<in> set us. matches r x))"
proof (induction n arbitrary: u)
  case 0
  show ?case by (simp add: empty_matches)
next
  case (Suc n)
  show ?case
  proof
    assume "matches (exactly r (Suc n)) u"
    then obtain x y where "u = x @ y" "matches r x" "matches (exactly r n) y"
      by (auto simp: cat_matches)
    with Suc.IH obtain us where "length us = n" "y = concat us" "\<forall>x \<in> set us. matches r x"
      by blast
    with \<open>u = x @ y\<close> \<open>matches r x\<close>
    have "length (x # us) = Suc n \<and> u = concat (x # us) \<and> (\<forall>z \<in> set (x # us). matches r z)"
      by simp
    then show "\<exists>us. length us = Suc n \<and> u = concat us \<and> (\<forall>x \<in> set us. matches r x)"
      by blast
  next
    assume "\<exists>us. length us = Suc n \<and> u = concat us \<and> (\<forall>x \<in> set us. matches r x)"
    then obtain us where us: "length us = Suc n" "u = concat us" "\<forall>x \<in> set us. matches r x"
      by blast
    then obtain x us' where "us = x # us'" by (cases us) auto
    with us Suc.IH[of "concat us'"] show "matches (exactly r (Suc n)) u"
      by (auto simp: cat_matches)
  qed
qed

lemma at_most_matches:
  "matches (at_most r n) u \<longleftrightarrow>
     (\<exists>us. length us \<le> n \<and> u = concat us \<and> (\<forall>x \<in> set us. matches r x))"
proof (induction n arbitrary: u)
  case 0
  show ?case by (simp add: empty_matches)
next
  case (Suc n)
  show ?case
  proof
    assume "matches (at_most r (Suc n)) u"
    then consider "u = []" | x y where "u = x @ y" "matches r x" "matches (at_most r n) y"
      by (auto simp: cat_matches alt_matches empty_matches)
    then show "\<exists>us. length us \<le> Suc n \<and> u = concat us \<and> (\<forall>x \<in> set us. matches r x)"
    proof cases
      case 1
      then have "length [] \<le> Suc n \<and> u = concat [] \<and> (\<forall>x \<in> set []. matches r x)" by simp
      then show ?thesis by blast
    next
      case 2
      with Suc.IH obtain us where "length us \<le> n" "y = concat us" "\<forall>x \<in> set us. matches r x"
        by blast
      with 2 have "length (x # us) \<le> Suc n \<and> u = concat (x # us)
          \<and> (\<forall>z \<in> set (x # us). matches r z)"
        by simp
      then show ?thesis by blast
    qed
  next
    assume "\<exists>us. length us \<le> Suc n \<and> u = concat us \<and> (\<forall>x \<in> set us. matches r x)"
    then obtain us where us: "length us \<le> Suc n" "u = concat us" "\<forall>x \<in> set us. matches r x"
      by blast
    show "matches (at_most r (Suc n)) u"
    proof (cases us)
      case Nil
      with us show ?thesis by (simp add: alt_matches empty_matches)
    next
      case (Cons x us')
      with us Suc.IH[of "concat us'"] show ?thesis
        by (auto simp: cat_matches alt_matches)
    qed
  qed
qed

lemma repeat_matches:
  assumes "m \<le> n"
  shows "matches (repeat r m n) u \<longleftrightarrow>
     (\<exists>us. m \<le> length us \<and> length us \<le> n \<and> u = concat us \<and> (\<forall>x \<in> set us. matches r x))"
proof
  assume "matches (repeat r m n) u"
  then obtain us1 us2 where
    "length us1 = m" "length us2 \<le> n - m" "u = concat us1 @ concat us2"
    "\<forall>x \<in> set us1. matches r x" "\<forall>x \<in> set us2. matches r x"
    unfolding repeat_def cat_matches exactly_matches at_most_matches by blast
  with assms have "m \<le> length (us1 @ us2) \<and> length (us1 @ us2) \<le> n
      \<and> u = concat (us1 @ us2) \<and> (\<forall>x \<in> set (us1 @ us2). matches r x)"
    by auto
  then show "\<exists>us. m \<le> length us \<and> length us \<le> n \<and> u = concat us
      \<and> (\<forall>x \<in> set us. matches r x)"
    by blast
next
  assume "\<exists>us. m \<le> length us \<and> length us \<le> n \<and> u = concat us \<and> (\<forall>x \<in> set us. matches r x)"
  then obtain us where us: "m \<le> length us" "length us \<le> n" "u = concat us"
    "\<forall>x \<in> set us. matches r x"
    by blast
  have "length (take m us) = m" using us(1) by simp
  moreover have "length (drop m us) \<le> n - m" using us(2) by simp
  moreover have "u = concat (take m us) @ concat (drop m us)"
    using us(3) by (metis append_take_drop_id concat_append)
  moreover have "\<forall>x \<in> set (take m us). matches r x"
    using us(4) by (meson in_set_takeD)
  moreover have "\<forall>x \<in> set (drop m us). matches r x"
    using us(4) by (meson in_set_dropD)
  ultimately show "matches (repeat r m n) u"
    unfolding repeat_def cat_matches exactly_matches at_most_matches by blast
qed

lemma star_concat:
  assumes "matches q u" and "q = Star r"
  shows "\<exists>us. u = concat us \<and> (\<forall>x \<in> set us. matches r x)"
  using assms
proof (induction q u rule: matches.induct)
  case (m_star0 r')
  have "[] = concat [] \<and> (\<forall>x \<in> set []. matches r x)" by simp
  then show ?case by blast
next
  case (m_star r' x v)
  then obtain us where "v = concat us" "\<forall>x \<in> set us. matches r x" by auto
  with m_star have "x @ v = concat (x # us) \<and> (\<forall>z \<in> set (x # us). matches r z)" by simp
  then show ?case by blast
qed simp_all

lemma star_matches:
  "matches (Star r) u \<longleftrightarrow> (\<exists>us. u = concat us \<and> (\<forall>x \<in> set us. matches r x))"
proof
  assume "matches (Star r) u"
  then show "\<exists>us. u = concat us \<and> (\<forall>x \<in> set us. matches r x)"
    using star_concat by blast
next
  assume "\<exists>us. u = concat us \<and> (\<forall>x \<in> set us. matches r x)"
  then obtain us where "u = concat us" "\<forall>x \<in> set us. matches r x" by blast
  then show "matches (Star r) u"
    by (induction us arbitrary: u) (auto intro: m_star0 m_star)
qed

lemma one_or_more_matches:
  "matches (one_or_more r) u \<longleftrightarrow>
     (\<exists>us. us \<noteq> [] \<and> u = concat us \<and> (\<forall>x \<in> set us. matches r x))"
proof
  assume "matches (one_or_more r) u"
  then obtain x us where "u = x @ concat us" "matches r x" "\<forall>x \<in> set us. matches r x"
    unfolding one_or_more_def cat_matches star_matches by blast
  then have "x # us \<noteq> [] \<and> u = concat (x # us) \<and> (\<forall>z \<in> set (x # us). matches r z)"
    by simp
  then show "\<exists>us. us \<noteq> [] \<and> u = concat us \<and> (\<forall>x \<in> set us. matches r x)"
    by blast
next
  assume "\<exists>us. us \<noteq> [] \<and> u = concat us \<and> (\<forall>x \<in> set us. matches r x)"
  then obtain x us where "u = concat (x # us)" "\<forall>z \<in> set (x # us). matches r z"
    by (metis list.exhaust)
  then show "matches (one_or_more r) u"
    unfolding one_or_more_def cat_matches star_matches by auto
qed

section \<open>Rounding to a float\<close>

lemma round_half_even_of_int: "round_half_even (of_int n) = n"
  by (simp add: round_half_even_def)

lemma round_half_even_bounds: "\<lfloor>x\<rfloor> \<le> round_half_even x" "round_half_even x \<le> \<lfloor>x\<rfloor> + 1"
  by (simp_all add: round_half_even_def Let_def)

lemma round_half_even_mono:
  assumes "x \<le> y"
  shows "round_half_even x \<le> round_half_even y"
proof (cases "\<lfloor>x\<rfloor> = \<lfloor>y\<rfloor>")
  case True
  with assms show ?thesis
    by (auto simp: round_half_even_def Let_def)
next
  case False
  with assms have "\<lfloor>x\<rfloor> + 1 \<le> \<lfloor>y\<rfloor>"
    using floor_mono[of x y] by linarith
  with round_half_even_bounds(2)[of x] round_half_even_bounds(1)[of y] show ?thesis
    by linarith
qed

lemma bitlen_positive: "0 < n \<Longrightarrow> 0 < bitlen n"
  using bitlen_nonneg[of n] bitlen_eq_zero_iff[of n] by linarith

lemma binade_upper:
  assumes "0 < x"
  shows "x < 2 powi (binade x + 1)"
proof (cases "1 \<le> x")
  case True
  define n where "n = \<lfloor>x\<rfloor>"
  have n: "0 < n" using True by (simp add: n_def)
  have "n < 2 ^ nat (bitlen n)" using bitlen_bounds[OF n] by simp
  then have "n + 1 \<le> 2 ^ nat (bitlen n)" by simp
  then have "real_of_int (n + 1) \<le> 2 ^ nat (bitlen n)"
    by (simp only: of_int_le_numeral_power_cancel_iff)
  moreover have "x < real_of_int (n + 1)" unfolding n_def by linarith
  ultimately have "x < 2 ^ nat (bitlen n)" by linarith
  moreover have "0 \<le> bitlen n" by (rule bitlen_nonneg)
  ultimately show ?thesis
    using True by (simp add: binade_def power_int_def flip: n_def)
next
  case False
  define m where "m = \<lceil>1 / x\<rceil> - 1"
  define k where "k = bitlen m"
  have y: "1 < 1 / x" using False assms by simp
  then have m: "0 < m" unfolding m_def by linarith
  have k: "0 < k" unfolding k_def using m by (rule bitlen_positive)
  have "2 ^ nat (k - 1) \<le> m" using bitlen_bounds[OF m] by (simp add: k_def)
  then have "(2::real) ^ nat (k - 1) \<le> real_of_int m" by simp
  moreover have "real_of_int m < 1 / x" unfolding m_def by linarith
  ultimately have "2 ^ nat (k - 1) < 1 / x" by linarith
  then have "x * 2 ^ nat (k - 1) < 1"
    using assms by (simp add: field_simps)
  then have "x < 1 / 2 ^ nat (k - 1)"
    by (simp add: field_simps)
  also have "1 / 2 ^ nat (k - 1) = (2::real) powi (- (k - 1))"
    using k by (cases "k = 1") (simp_all add: power_int_def field_simps)
  also have "\<dots> \<le> 2 powi (binade x + 1)"
    using False by (intro power_int_increasing) (simp_all add: binade_def flip: m_def k_def)
  finally show ?thesis .
qed

lemma binade_lower:
  assumes "0 < x" and "- 1022 < binade x"
  shows "2 powi binade x \<le> x"
proof (cases "1 \<le> x")
  case True
  define n where "n = \<lfloor>x\<rfloor>"
  have n: "0 < n" using True by (simp add: n_def)
  have "2 ^ nat (bitlen n - 1) \<le> n" using bitlen_bounds[OF n] by simp
  then have "(2::real) ^ nat (bitlen n - 1) \<le> real_of_int n" by simp
  moreover have "real_of_int n \<le> x" by (simp add: n_def)
  ultimately have "2 ^ nat (bitlen n - 1) \<le> x" by linarith
  moreover have "0 < bitlen n" using n bitlen_positive by simp
  ultimately show ?thesis
    using True by (simp add: binade_def power_int_def flip: n_def)
next
  case False
  define m where "m = \<lceil>1 / x\<rceil> - 1"
  define k where "k = bitlen m"
  have be: "binade x = - k"
    using False assms(2) by (simp add: binade_def max_def flip: m_def k_def split: if_splits)
  have k: "0 \<le> k" unfolding k_def by (rule bitlen_nonneg)
  have y: "1 < 1 / x" using False assms by simp
  then have m: "0 < m" unfolding m_def by linarith
  have "m < 2 ^ nat k" using bitlen_bounds[OF m] by (simp add: k_def)
  then have "m + 1 \<le> 2 ^ nat k" by simp
  then have "real_of_int (m + 1) \<le> 2 ^ nat k"
    by (simp only: of_int_le_numeral_power_cancel_iff)
  moreover have "1 / x \<le> real_of_int (m + 1)" unfolding m_def by simp
  ultimately have "1 / x \<le> 2 ^ nat k" by linarith
  then have "1 \<le> x * 2 ^ nat k"
    using assms by (simp add: field_simps)
  then have "1 / 2 ^ nat k \<le> x"
    by (simp add: field_simps)
  moreover have "(2::real) powi (- k) = 1 / 2 ^ nat k"
    using k by (cases "k = 0") (simp_all add: power_int_def field_simps)
  ultimately show ?thesis by (simp add: be)
qed

lemma binade_ge: "- 1022 \<le> binade x"
proof (cases "1 \<le> x")
  case True
  then have "0 < \<lfloor>x\<rfloor>" by simp
  then have "0 < bitlen \<lfloor>x\<rfloor>" using bitlen_positive by simp
  with True show ?thesis by (simp add: binade_def)
next
  case False
  then show ?thesis by (simp add: binade_def)
qed

lemma double_nonneg:
  assumes "0 \<le> x"
  shows "0 \<le> double x"
proof (cases "x = 0")
  case True
  then show ?thesis by (simp add: double_def)
next
  case False
  define q :: real where "q = 2 powi (binade \<bar>x\<bar> - 52)"
  have q: "0 < q" by (simp add: q_def)
  have "0 \<le> x / q" using assms q by simp
  then have "round_half_even 0 \<le> round_half_even (x / q)"
    by (rule round_half_even_mono)
  then have "0 \<le> round_half_even (x / q)"
    using round_half_even_of_int[of 0] by simp
  with q False show ?thesis
    by (simp add: double_def Let_def flip: q_def)
qed

lemma double_mono:
  assumes "0 < x" and "x \<le> y"
  shows "double x \<le> double y"
proof -
  define ex where "ex = binade x"
  define ey where "ey = binade y"
  define qx :: real where "qx = 2 powi (ex - 52)"
  define qy :: real where "qy = 2 powi (ey - 52)"
  have y: "0 < y" using assms by simp
  have qx: "0 < qx" and qy: "0 < qy" by (simp_all add: qx_def qy_def)
  have dx: "double x = of_int (round_half_even (x / qx)) * qx"
    using assms(1) by (simp add: double_def Let_def qx_def ex_def)
  have dy: "double y = of_int (round_half_even (y / qy)) * qy"
    using y by (simp add: double_def Let_def qy_def ey_def)
  have le: "ex \<le> ey"
  proof (rule ccontr)
    assume "\<not> ex \<le> ey"
    then have lt: "ey + 1 \<le> ex" by simp
    with binade_ge[of y] have "- 1022 < binade x" by (simp add: ex_def ey_def)
    then have "2 powi ex \<le> x" using binade_lower[OF assms(1)] by (simp add: ex_def)
    moreover have "y < 2 powi (ey + 1)" using binade_upper[OF y] by (simp add: ey_def)
    moreover have "(2::real) powi (ey + 1) \<le> 2 powi ex"
      using lt by (intro power_int_increasing) simp_all
    ultimately show False using assms(2) by linarith
  qed
  show ?thesis
  proof (cases "ex = ey")
    case True
    then have "qx = qy" by (simp add: qx_def qy_def)
    moreover have "round_half_even (x / qy) \<le> round_half_even (y / qy)"
      using assms(2) qy by (intro round_half_even_mono) (simp add: divide_right_mono)
    ultimately show ?thesis
      using qy by (simp add: dx dy)
  next
    case False
    with le have lt: "ex + 1 \<le> ey" by simp
    have split: "(2::real) powi (ex + 1) = 2 ^ 53 * qx"
      unfolding qx_def using power_int_add[of "2::real" 53 "ex - 52"]
      by (simp add: add.commute)
    have "x < 2 powi (ex + 1)"
      using binade_upper[OF assms(1)] by (simp add: ex_def)
    then have "x < 2 ^ 53 * qx"
      by (simp only: split)
    then have "x / qx \<le> of_int (2 ^ 53)"
      using qx by (simp add: field_simps)
    then have "round_half_even (x / qx) \<le> round_half_even (of_int (2 ^ 53))"
      by (rule round_half_even_mono)
    then have "round_half_even (x / qx) \<le> 2 ^ 53"
      by (simp only: round_half_even_of_int)
    then have "real_of_int (round_half_even (x / qx)) \<le> real_of_int (2 ^ 53)"
      by (simp only: of_int_le_iff)
    then have "double x \<le> 2 ^ 53 * qx"
      using qx by (simp add: dx)
    also have "\<dots> = 2 powi (ex + 1)" by (simp add: split)
    also have "\<dots> \<le> 2 powi ey"
      using lt by (intro power_int_increasing) simp_all
    also have "\<dots> \<le> double y"
    proof -
      have split': "(2::real) powi ey = 2 ^ 52 * qy"
        unfolding qy_def using power_int_add[of "2::real" 52 "ey - 52"] by simp
      have "- 1022 < binade y"
        using lt binade_ge[of x] by (simp add: ex_def ey_def)
      then have "2 powi ey \<le> y"
        using binade_lower[OF y] by (simp add: ey_def)
      then have "2 ^ 52 * qy \<le> y"
        by (simp only: split')
      then have "of_int (2 ^ 52) \<le> y / qy"
        using qy by (simp add: field_simps)
      then have "round_half_even (of_int (2 ^ 52)) \<le> round_half_even (y / qy)"
        by (rule round_half_even_mono)
      then have "2 ^ 52 \<le> round_half_even (y / qy)"
        by (simp only: round_half_even_of_int)
      then have "real_of_int (2 ^ 52) \<le> real_of_int (round_half_even (y / qy))"
        by (simp only: of_int_le_iff)
      then show ?thesis
        using qy by (simp add: dy split')
    qed
    finally show ?thesis .
  qed
qed

lemma double_0_4: "double 0.4 = 3602879701896397 / 9007199254740992"
  by code_simp

lemma double_0_2: "double 0.2 = 3602879701896397 / 18014398509481984"
  by code_simp

lemma double_20: "double 20 = 20"
  by code_simp

lemma double_top_of_middle_tier: "double (3602879701896397 / 9007199254740992 * 15) = 6"
  by code_simp

section \<open>How the running score moves through the blocks\<close>

lemma foldl_cond_add:
  "foldl (\<lambda>acc x. if P x then acc + w x else acc) (a::int) xs
     = a + sum_list (map w (filter P xs))"
  by (induction xs arbitrary: a) simp_all

lemma sum_list_filter_bounds:
  assumes "\<And>x. x \<in> set xs \<Longrightarrow> (0::int) \<le> w x"
  shows "0 \<le> sum_list (map w (filter P xs))"
    and "sum_list (map w (filter P xs)) \<le> sum_list (map w xs)"
  using assms by (induction xs) (auto intro: add_increasing)

lemma keyword_stage_sum:
  "keyword_stage t a = a + sum_list (map snd (filter (\<lambda>kp. sublist (fst kp) t) license_keywords))"
proof -
  have "(\<lambda>score (keyword, points). if sublist keyword t then score + points else score)
          = (\<lambda>acc kp. if sublist (fst kp) t then acc + snd kp else (acc::int))"
    by (simp add: fun_eq_iff split: prod.splits)
  then show ?thesis
    unfolding keyword_stage_def by (simp only: foldl_cond_add)
qed

lemma keyword_stage_add: "keyword_stage t a = a + keyword_stage t 0"
  by (simp add: keyword_stage_sum)

lemma keyword_stage_bounds: "0 \<le> keyword_stage t 0" "keyword_stage t 0 \<le> 15"
proof -
  have nonneg: "\<And>kp. kp \<in> set license_keywords \<Longrightarrow> (0::int) \<le> snd kp"
    by (auto simp: license_keywords_def)
  have total: "sum_list (map snd license_keywords) = (15::int)"
    by (simp add: license_keywords_def)
  show "0 \<le> keyword_stage t 0"
    using sum_list_filter_bounds(1)[of license_keywords snd, OF nonneg]
    by (simp add: keyword_stage_sum)
  show "keyword_stage t 0 \<le> 15"
    using sum_list_filter_bounds(2)[of license_keywords snd, OF nonneg] total
    by (simp add: keyword_stage_sum)
qed

lemma confidence_stage_sum:
  "confidence_stage t a
     = a + sum_list (map (\<lambda>_. 1) (filter (\<lambda>field. sublist field t) license_fields))"
  unfolding confidence_stage_def by (simp only: foldl_cond_add)

lemma confidence_stage_add: "confidence_stage t a = a + confidence_stage t 0"
  by (simp add: confidence_stage_sum)

lemma confidence_stage_bounds: "0 \<le> confidence_stage t 0" "confidence_stage t 0 \<le> 12"
proof -
  have total: "sum_list (map (\<lambda>_. 1) license_fields) = (12::int)"
    by (simp add: license_fields_def)
  show "0 \<le> confidence_stage t 0"
    using sum_list_filter_bounds(1)[of license_fields "\<lambda>_. 1"]
    by (simp add: confidence_stage_sum)
  show "confidence_stage t 0 \<le> 12"
    using sum_list_filter_bounds(2)[of license_fields "\<lambda>_. 1"] total
    by (simp add: confidence_stage_sum)
qed

lemma text_quality_stage_add: "text_quality_stage t a = a + text_quality_stage t 0"
  by (simp add: text_quality_stage_def Let_def)

lemma text_quality_stage_bounds: "0 \<le> text_quality_stage t 0" "text_quality_stage t 0 \<le> 7"
  by (simp_all add: text_quality_stage_def Let_def)

lemma face_match_stage_add: "face_match_stage d s a = a + face_match_stage d s 0"
  by (simp add: face_match_stage_def)

lemma text_points_bounds: "0 \<le> text_points t" "text_points t \<le> 34"
proof -
  have eq: "text_points t
      = keyword_stage (lower t) 0 + text_quality_stage t 0 + confidence_stage (lower t) 0"
    unfolding text_points_def
    by (subst confidence_stage_add, subst text_quality_stage_add) simp
  show "0 \<le> text_points t"
    using keyword_stage_bounds(1)[of "lower t"] text_quality_stage_bounds(1)[of t]
      confidence_stage_bounds(1)[of "lower t"]
    by (simp add: eq)
  show "text_points t \<le> 34"
    using keyword_stage_bounds(2)[of "lower t"] text_quality_stage_bounds(2)[of t]
      confidence_stage_bounds(2)[of "lower t"]
    by (simp add: eq)
qed

lemma score_decomposition:
  "calculate_safety_score t d s = max (min (face_match_stage d s 0 + text_points t) 100) 0"
proof -
  have "confidence_stage (lower t)
          (text_quality_stage t (keyword_stage (lower t) (face_match_stage d s 0)))
        = face_match_stage d s 0 + text_points t"
    unfolding text_points_def
    by (subst confidence_stage_add, subst text_quality_stage_add, subst keyword_stage_add,
        subst (2) confidence_stage_add, subst (2) text_quality_stage_add) simp
  then show ?thesis
    by (simp add: calculate_safety_score_def Let_def)
qed

lemma py_int_double_nonneg: "0 \<le> x \<Longrightarrow> 0 \<le> py_int (double x)"
  using double_nonneg[of x] by (simp add: py_int_def)

lemma py_int_double_mono:
  assumes "0 < x" and "x \<le> y"
  shows "py_int (double x) \<le> py_int (double y)"
proof -
  have "0 \<le> double x" "0 \<le> double y"
    using assms by (simp_all add: double_nonneg)
  moreover have "\<lfloor>double x\<rfloor> \<le> \<lfloor>double y\<rfloor>"
    using double_mono[OF assms] by (rule floor_mono)
  ultimately show ?thesis by (simp add: py_int_def)
qed

lemma above_threshold_positive:
  "s > double 0.4 \<Longrightarrow> 0 < s" "s > double 0.2 \<Longrightarrow> 0 < s"
  unfolding double_0_4 double_0_2 by simp_all

lemma face_match_stage_ge_20: "20 \<le> face_match_stage d s 0"
proof -
  have "0 \<le> py_int (double (s * 20))" if "s > double 0.4"
    using above_threshold_positive(1)[OF that] by (intro py_int_double_nonneg) simp
  moreover have "0 \<le> py_int (double (s * 15))" if "s > double 0.2"
    using above_threshold_positive(2)[OF that] by (intro py_int_double_nonneg) simp
  ultimately show ?thesis
    by (auto simp: face_match_stage_def)
qed

section \<open>Range of the score\<close>

text \<open>
  Claim C6. For every text, the empty one included, every flag and every similarity, 0 and 1
  included, the result of \<open>calculate_safety_score\<close> is an integer between 0 and 100.
\<close>

theorem score_in_range:
  "0 \<le> calculate_safety_score text is_license s \<and> calculate_safety_score text is_license s \<le> 100"
  by (simp add: calculate_safety_score_def Let_def)

text \<open>
  Claim C10. For every text, every flag and every similarity in [0,1] the score is at least
  20, the smallest base of the face match block, so it lies in [20,100]; hence
  \<open>get_safety_status\<close> never answers \<open>rejected\<close> and \<open>get_confidence_level\<close> never answers
  \<open>minimal\<close> on a score the scorer produces.
\<close>

theorem score_at_least_20:
  assumes "0 \<le> s" and "s \<le> 1"
  shows "20 \<le> calculate_safety_score text is_license s
       \<and> calculate_safety_score text is_license s \<le> 100
       \<and> get_safety_status (calculate_safety_score text is_license s) \<noteq> ''rejected''
       \<and> get_confidence_level (calculate_safety_score text is_license s) \<noteq> ''minimal''"
proof -
  have lo: "20 \<le> calculate_safety_score text is_license s"
    using face_match_stage_ge_20[of is_license s] text_points_bounds(1)[of "text"]
    by (simp add: score_decomposition)
  have hi: "calculate_safety_score text is_license s \<le> 100"
    by (simp add: score_decomposition)
  from lo show ?thesis
    using hi by (simp add: get_safety_status_def get_confidence_level_def)
qed

theorem score_at_least_20_witness:
  "(0::real) \<le> 0 \<and> (0::real) \<le> 1
   \<and> calculate_safety_score [] False 0 = 20
   \<and> get_safety_status (calculate_safety_score [] False 0) = ''unsafe''
   \<and> get_confidence_level (calculate_safety_score [] False 0) = ''very_low''"
proof -
  have a: "(0::real) \<le> 0" and b: "(0::real) \<le> 1" by simp_all
  have eq: "calculate_safety_score [] False 0 = 20" by code_simp
  show ?thesis
    using score_at_least_20[OF a b, of "[]" False] eq
    by (simp add: get_safety_status_def get_confidence_level_def)
qed

section \<open>Monotonicity in the similarity\<close>

lemma face_match_stage_mono:
  assumes "s1 \<le> s2"
  shows "face_match_stage d s1 0 \<le> face_match_stage d s2 0"
proof -
  have top: "0 \<le> py_int (double (s2 * 20))" if "s2 > double 0.4"
    using above_threshold_positive(1)[OF that] by (intro py_int_double_nonneg) simp
  have mid: "0 \<le> py_int (double (s2 * 15))" if "s2 > double 0.2"
    using above_threshold_positive(2)[OF that] by (intro py_int_double_nonneg) simp
  have mid_le: "py_int (double (s1 * 15)) \<le> 6" if "s1 > double 0.2" "\<not> s1 > double 0.4"
  proof -
    have pos: "0 < s1 * 15"
      using above_threshold_positive(2)[OF that(1)] by simp
    have "s1 * 15 \<le> 3602879701896397 / 9007199254740992 * 15"
      using that(2) unfolding double_0_4 by simp
    from py_int_double_mono[OF pos this] show ?thesis
      unfolding double_top_of_middle_tier by (simp add: py_int_def)
  qed
  have same20: "py_int (double (s1 * 20)) \<le> py_int (double (s2 * 20))" if "s1 > double 0.4"
    using above_threshold_positive(1)[OF that] assms by (intro py_int_double_mono) simp_all
  have same15: "py_int (double (s1 * 15)) \<le> py_int (double (s2 * 15))" if "s1 > double 0.2"
    using above_threshold_positive(2)[OF that] assms by (intro py_int_double_mono) simp_all
  show ?thesis
    using assms top mid mid_le same20 same15
    by (auto simp: face_match_stage_def)
qed

text \<open>
  Claim C5. For a fixed text and flag, \<open>calculate_safety_score\<close> never decreases as the
  similarity grows within [0,1]: neither inside a tier nor across the tier boundaries at 0.2
  and 0.4.
\<close>

theorem score_monotone_in_similarity:
  assumes "0 \<le> s1" and "s1 \<le> s2" and "s2 \<le> 1"
  shows "calculate_safety_score text is_license s1 \<le> calculate_safety_score text is_license s2"
  using face_match_stage_mono[OF assms(2), of is_license]
  by (simp add: score_decomposition)

theorem score_monotone_in_similarity_witness:
  "(0::real) \<le> 0.2 \<and> (0.2::real) \<le> 0.21 \<and> (0.21::real) \<le> 1
   \<and> calculate_safety_score ''STATE ID'' True 0.2 = 44
   \<and> calculate_safety_score ''STATE ID'' True 0.21 = 57
   \<and> calculate_safety_score ''STATE ID'' True 0.2 \<le> calculate_safety_score ''STATE ID'' True 0.21"
proof -
  have a: "(0::real) \<le> 0.2" and b: "(0.2::real) \<le> 0.21" and c: "(0.21::real) \<le> 1"
    by simp_all
  have "calculate_safety_score ''STATE ID'' True 0.2 = 44" by code_simp
  moreover have "calculate_safety_score ''STATE ID'' True 0.21 = 57" by code_simp
  ultimately show ?thesis
    using a b c score_monotone_in_similarity[OF a b c, of "''STATE ID''" True] by simp
qed

section \<open>The tiers of the face match block\<close>

lemma text_points_empty: "text_points [] = 0"
  by code_simp

text \<open>
  Claim C1, as amended. For every text, flag and float similarity \<open>s\<close> in [0,1], what the face
  match block adds to the score is decided by three tiers that exclude one another, tried
  from the highest: above the float nearest to 0.4 it adds 70 and the floor of the float
  product \<open>s * 20\<close>; otherwise above the float nearest to 0.2 it adds 50 and the floor of the
  float product \<open>s * 15\<close>; otherwise it adds 40 for a document and 20 otherwise, with no
  bonus. The float product is the exact product rounded to the nearest float. The final
  score is that amount plus the points of the text, capped at 100, and for the empty text it
  is that amount itself.
\<close>

theorem face_match_tiers:
  assumes "0 \<le> s" and "s \<le> 1"
  shows "(s > double 0.4 \<longrightarrow>
           face_match_stage is_document s score = score + (70 + \<lfloor>double (s * 20)\<rfloor>))
       \<and> (double 0.2 < s \<and> s \<le> double 0.4 \<longrightarrow>
           face_match_stage is_document s score = score + (50 + \<lfloor>double (s * 15)\<rfloor>))
       \<and> (s \<le> double 0.2 \<longrightarrow>
           face_match_stage is_document s score = score + (if is_document then 40 else 20))
       \<and> double 0.4 = 3602879701896397 / 9007199254740992
       \<and> double 0.2 = 3602879701896397 / 18014398509481984
       \<and> calculate_safety_score text is_document s
           = min (face_match_stage is_document s 0 + text_points text) 100
       \<and> calculate_safety_score [] is_document s = face_match_stage is_document s 0"
proof -
  have nn: "0 \<le> double (s * 20)" "0 \<le> double (s * 15)"
    using assms(1) by (simp_all add: double_nonneg)
  have order: "double 0.2 < double 0.4"
    unfolding double_0_4 double_0_2 by simp
  have tiers: "(s > double 0.4 \<longrightarrow>
           face_match_stage is_document s score = score + (70 + \<lfloor>double (s * 20)\<rfloor>))
       \<and> (double 0.2 < s \<and> s \<le> double 0.4 \<longrightarrow>
           face_match_stage is_document s score = score + (50 + \<lfloor>double (s * 15)\<rfloor>))
       \<and> (s \<le> double 0.2 \<longrightarrow>
           face_match_stage is_document s score = score + (if is_document then 40 else 20))"
    using nn order by (auto simp: face_match_stage_def py_int_def)
  have nonneg: "0 \<le> face_match_stage is_document s 0 + text_points text"
    using face_match_stage_ge_20[of is_document s] text_points_bounds(1)[of "text"] by simp
  have total: "calculate_safety_score text is_document s
           = min (face_match_stage is_document s 0 + text_points text) 100"
    using nonneg by (simp add: score_decomposition)
  have top: "py_int (double (s * 20)) \<le> 20" if "s > double 0.4"
  proof -
    have "0 < s * 20" using above_threshold_positive(1)[OF that] by simp
    moreover have "s * 20 \<le> 20" using assms(2) by simp
    ultimately have "py_int (double (s * 20)) \<le> py_int (double 20)"
      by (rule py_int_double_mono)
    then show ?thesis unfolding double_20 by (simp add: py_int_def)
  qed
  have mid: "py_int (double (s * 15)) \<le> 20" if "s > double 0.2"
  proof -
    have "0 < s * 15" using above_threshold_positive(2)[OF that] by simp
    moreover have "s * 15 \<le> 20" using assms(2) by simp
    ultimately have "py_int (double (s * 15)) \<le> py_int (double 20)"
      by (rule py_int_double_mono)
    then show ?thesis unfolding double_20 by (simp add: py_int_def)
  qed
  have "face_match_stage is_document s 0 \<le> 100"
    using top mid by (auto simp: face_match_stage_def)
  then have "calculate_safety_score [] is_document s = face_match_stage is_document s 0"
    using face_match_stage_ge_20[of is_document s]
    by (simp add: score_decomposition text_points_empty)
  with tiers total double_0_4 double_0_2 show ?thesis by blast
qed

theorem face_match_tiers_witness:
  "calculate_safety_score [] False (double 0.55) = 70 + 11
   \<and> calculate_safety_score [] True (double 0.4) = 50 + 6
   \<and> calculate_safety_score [] True (double 0.2) = 40
   \<and> calculate_safety_score [] False (double 0.2) = 20"
proof -
  have h1: "0 \<le> double 0.55" "double 0.55 \<le> 1" "double 0.55 > double 0.4"
    by code_simp+
  have h2: "0 \<le> double 0.4" "double 0.4 \<le> 1" "double 0.2 < double 0.4 \<and> double 0.4 \<le> double 0.4"
    by code_simp+
  have h3: "0 \<le> double 0.2" "double 0.2 \<le> 1" "double 0.2 \<le> double 0.2"
    by code_simp+
  have v1: "\<lfloor>double (double 0.55 * 20)\<rfloor> = 11" by code_simp
  have v2: "\<lfloor>double (double 0.4 * 15)\<rfloor> = 6" by code_simp
  from face_match_tiers[OF h1(1) h1(2), of False 0 "[]"] h1(3)
  have a: "face_match_stage False (double 0.55) 0 = 0 + (70 + \<lfloor>double (double 0.55 * 20)\<rfloor>)"
    and a': "calculate_safety_score [] False (double 0.55) = face_match_stage False (double 0.55) 0"
    by blast+
  from face_match_tiers[OF h2(1) h2(2), of True 0 "[]"] h2(3)
  have b: "face_match_stage True (double 0.4) 0 = 0 + (50 + \<lfloor>double (double 0.4 * 15)\<rfloor>)"
    and b': "calculate_safety_score [] True (double 0.4) = face_match_stage True (double 0.4) 0"
    by blast+
  from face_match_tiers[OF h3(1) h3(2), of True 0 "[]"] h3(3)
  have c: "face_match_stage True (double 0.2) 0 = 0 + (if True then 40 else 20)"
    and c': "calculate_safety_score [] True (double 0.2) = face_match_stage True (double 0.2) 0"
    by blast+
  from face_match_tiers[OF h3(1) h3(2), of False 0 "[]"] h3(3)
  have d: "face_match_stage False (double 0.2) 0 = 0 + (if False then 40 else 20)"
    and d': "calculate_safety_score [] False (double 0.2) = face_match_stage False (double 0.2) 0"
    by blast+
  show ?thesis
    by (simp only: a' b' c' d' a b c d v1 v2) simp
qed

text \<open>
  Claim C1, as stated (above 0.4 the block adds \<open>70 + floor(s * 20)\<close> with the exact
  product), fails. The float \<open>1 - 0.55 = 0.44999999999999996\<close> lies in [0,1] and above 0.4;
  its exact product with 20 is below 9, but the float product is 9, so the score is 79 and
  not 78. And the float nearest to 0.4 lies above 0.4, yet is scored in the middle tier: 56
  and not 78.
\<close>

theorem face_match_tiers_exact_product_counterexample:
  "double (2026619832316723 / 4503599627370496) = 2026619832316723 / 4503599627370496
   \<and> 0 \<le> (2026619832316723 / 4503599627370496 :: real)
   \<and> (2026619832316723 / 4503599627370496 :: real) \<le> 1
   \<and> (2026619832316723 / 4503599627370496 :: real) > 0.4
   \<and> calculate_safety_score [] False (2026619832316723 / 4503599627370496) = 79
   \<and> 70 + \<lfloor>(2026619832316723 / 4503599627370496 :: real) * 20\<rfloor> = 78
   \<and> double (3602879701896397 / 9007199254740992) = 3602879701896397 / 9007199254740992
   \<and> (3602879701896397 / 9007199254740992 :: real) > 0.4
   \<and> calculate_safety_score [] False (3602879701896397 / 9007199254740992) = 56
   \<and> 70 + \<lfloor>(3602879701896397 / 9007199254740992 :: real) * 20\<rfloor> = 78"
  by code_simp

section \<open>The scenarios of the specification\<close>

text \<open>
  Claim C4, as amended. For the empty text, no document and similarity 0 the score is 20,
  the status is \<open>unsafe\<close> and the confidence is \<open>very_low\<close>.
\<close>

theorem blank_request_scores_20_unsafe:
  "calculate_safety_score [] False 0 = 20
   \<and> get_safety_status (calculate_safety_score [] False 0) = ''unsafe''
   \<and> get_confidence_level (calculate_safety_score [] False 0) = ''very_low''"
proof -
  have "calculate_safety_score [] False 0 = 20" by code_simp
  then show ?thesis
    by (simp add: get_safety_status_def get_confidence_level_def)
qed

text \<open>
  Claim C4, as stated (score 20 with status \<open>rejected\<close> and confidence \<open>minimal\<close>), fails:
  20 is not below the breakpoint 10.
\<close>

theorem blank_request_not_rejected:
  "\<not> (calculate_safety_score [] False 0 = 20
      \<and> get_safety_status (calculate_safety_score [] False 0) = ''rejected''
      \<and> get_confidence_level (calculate_safety_score [] False 0) = ''minimal'')"
proof -
  have "calculate_safety_score [] False 0 = 20" by code_simp
  then show ?thesis
    by (simp add: get_safety_status_def)
qed

text \<open>
  Claim C8, as amended. The text \<open>driver license state dmv department\<close> contains five of
  the ten keywords of the table (driver, license, state, dmv, department) for 8 points, earns
  one more point for being longer than 20 characters and none from the other checks; with a
  document and similarity 0 its score is 40 + 8 + 1 = 49.
\<close>

theorem scenario_b_score:
  "map fst (filter (\<lambda>(keyword, points).
       sublist keyword (lower ''driver license state dmv department'')) license_keywords)
     = [''driver'', ''license'', ''state'', ''dmv'', ''department'']
   \<and> keyword_stage (lower ''driver license state dmv department'') 0 = 8
   \<and> text_quality_stage ''driver license state dmv department'' 0 = 1
   \<and> confidence_stage (lower ''driver license state dmv department'') 0 = 0
   \<and> calculate_safety_score ''driver license state dmv department'' True 0 = 40 + 8 + 1"
  by code_simp

text \<open>
  Claim C8, as stated (13 keyword points and a score of at least 40 + 13), fails.
\<close>

theorem scenario_b_not_13_points:
  "keyword_stage (lower ''driver license state dmv department'') 0 \<noteq> 13
   \<and> calculate_safety_score ''driver license state dmv department'' True 0 < 40 + 13"
  by code_simp

section \<open>The score breakdown of the response\<close>

text \<open>
  Two components of the breakdown repeat the scorer's blocks: the keyword points and the
  confidence points are what \<open>calculate_safety_score\<close> adds for the same text.
\<close>

lemma breakdown_keyword_matches:
  "keyword_matches (ocr_score_breakdown t d s) = keyword_stage (lower t) 0"
proof -
  have step: "\<And>c p a. (if c then a + p else a) = a + flag p c"
    by (simp add: flag_def)
  show ?thesis
    by (simp add: ocr_score_breakdown_def Let_def keyword_stage_def license_keywords_def step)
qed

lemma breakdown_confidence_indicators:
  "confidence_indicators (ocr_score_breakdown t d s) = confidence_stage (lower t) 0"
proof -
  have step: "\<And>c a. (if c then a + 1 else a) = a + flag 1 c"
    by (simp add: flag_def)
  show ?thesis
    by (simp add: ocr_score_breakdown_def Let_def confidence_stage_def license_fields_def step)
qed

text \<open>
  Claim C9 says that the components of \<open>score_breakdown\<close> are the sub-totals the scorer
  used, so that they sum to the score. On a request whose images show neither text nor
  faces the handler classifies the text as no document, the similarity is 0, the scorer adds
  a base of 20 and returns 20, while the breakdown reports a base of 55 and nothing else.
  On a text with a date, a licence number and a name at similarity 0.5 the scorer returns
  70 + 10 + 7 = 87, while the breakdown reports 55, 7 and 10, which sum to 72.
\<close>

theorem breakdown_differs_from_score:
  "ocr_is_license [] = False
   \<and> fst (compare_faces (\<lambda>a b. 0) ([] :: nat list) []) = 0
   \<and> calculate_safety_score [] False 0 = 20
   \<and> face_match_stage False 0 0 = 20
   \<and> ocr_score_breakdown [] False 0
       = \<lparr>base_license_score = 55, face_match_score = 0, keyword_matches = 0,
          text_quality = 0, confidence_indicators = 0\<rparr>
   \<and> ocr_is_license ''AB123456 01/02/2030 John Smith'' = False
   \<and> calculate_safety_score ''AB123456 01/02/2030 John Smith'' False 0.5 = 87
   \<and> ocr_score_breakdown ''AB123456 01/02/2030 John Smith'' False 0.5
       = \<lparr>base_license_score = 55, face_match_score = 7, keyword_matches = 0,
          text_quality = 10, confidence_indicators = 0\<rparr>"
  by code_simp

section \<open>The bands of the status mapper\<close>

lemma status_image: "get_safety_status ` {0..100} = set status_order"
proof
  show "get_safety_status ` {0..100} \<subseteq> set status_order"
    by (auto simp: get_safety_status_def status_order_def)
  have "get_safety_status 5 \<in> get_safety_status ` {0..100}"
    "get_safety_status 15 \<in> get_safety_status ` {0..100}"
    "get_safety_status 30 \<in> get_safety_status ` {0..100}"
    "get_safety_status 50 \<in> get_safety_status ` {0..100}"
    "get_safety_status 70 \<in> get_safety_status ` {0..100}"
    "get_safety_status 90 \<in> get_safety_status ` {0..100}"
    by (rule imageI, simp)+
  then show "set status_order \<subseteq> get_safety_status ` {0..100}"
    by (simp add: get_safety_status_def status_order_def)
qed

lemma confidence_image: "get_confidence_level ` {0..100} = set confidence_order"
proof
  show "get_confidence_level ` {0..100} \<subseteq> set confidence_order"
    by (auto simp: get_confidence_level_def confidence_order_def)
  have "get_confidence_level 5 \<in> get_confidence_level ` {0..100}"
    "get_confidence_level 15 \<in> get_confidence_level ` {0..100}"
    "get_confidence_level 30 \<in> get_confidence_level ` {0..100}"
    "get_confidence_level 50 \<in> get_confidence_level ` {0..100}"
    "get_confidence_level 70 \<in> get_confidence_level ` {0..100}"
    "get_confidence_level 90 \<in> get_confidence_level ` {0..100}"
    by (rule imageI, simp)+
  then show "set confidence_order \<subseteq> get_confidence_level ` {0..100}"
    by (simp add: get_confidence_level_def confidence_order_def)
qed

lemma status_rank_eq:
  "rank status_order (get_safety_status score) =
     (if score \<ge> 80 then 5 else if score \<ge> 60 then 4 else if score \<ge> 40 then 3
      else if score \<ge> 25 then 2 else if score \<ge> 10 then 1 else 0)"
  by (simp add: rank_def status_order_def get_safety_status_def)

lemma confidence_rank_eq:
  "rank confidence_order (get_confidence_level score) =
     (if score \<ge> 80 then 5 else if score \<ge> 60 then 4 else if score \<ge> 40 then 3
      else if score \<ge> 25 then 2 else if score \<ge> 10 then 1 else 0)"
  by (simp add: rank_def confidence_order_def get_confidence_level_def)

text \<open>
  Claim C2. \<open>get_safety_status\<close> and \<open>get_confidence_level\<close> are defined on every integer
  score, never decrease (in the order of the labels) as the score grows, and cut [0,100]
  into exactly six bands at the same breakpoints, without gap or overlap: from 80
  (\<open>very_safe\<close>, \<open>very_high\<close>); 60 to 79 (\<open>safe\<close>, \<open>high\<close>); 40 to 59 (\<open>moderate\<close>, \<open>medium\<close>);
  25 to 39 (\<open>risky\<close>, \<open>low\<close>); 10 to 24 (\<open>unsafe\<close>, \<open>very_low\<close>); 0 to 9 (\<open>rejected\<close>,
  \<open>minimal\<close>).
\<close>

theorem status_bands:
  fixes score a b :: int
  shows "(80 \<le> score \<longrightarrow>
            get_safety_status score = ''very_safe'' \<and> get_confidence_level score = ''very_high'')
       \<and> (60 \<le> score \<and> score \<le> 79 \<longrightarrow>
            get_safety_status score = ''safe'' \<and> get_confidence_level score = ''high'')
       \<and> (40 \<le> score \<and> score \<le> 59 \<longrightarrow>
            get_safety_status score = ''moderate'' \<and> get_confidence_level score = ''medium'')
       \<and> (25 \<le> score \<and> score \<le> 39 \<longrightarrow>
            get_safety_status score = ''risky'' \<and> get_confidence_level score = ''low'')
       \<and> (10 \<le> score \<and> score \<le> 24 \<longrightarrow>
            get_safety_status score = ''unsafe'' \<and> get_confidence_level score = ''very_low'')
       \<and> (0 \<le> score \<and> score \<le> 9 \<longrightarrow>
            get_safety_status score = ''rejected'' \<and> get_confidence_level score = ''minimal'')
       \<and> (a \<le> b \<longrightarrow>
            rank status_order (get_safety_status a) \<le> rank status_order (get_safety_status b)
            \<and> rank confidence_order (get_confidence_level a)
                \<le> rank confidence_order (get_confidence_level b))
       \<and> rank status_order (get_safety_status score)
            = rank confidence_order (get_confidence_level score)
       \<and> get_safety_status ` {0..100} = set status_order
       \<and> get_confidence_level ` {0..100} = set confidence_order
       \<and> distinct status_order \<and> length status_order = 6
       \<and> distinct confidence_order \<and> length confidence_order = 6"
proof -
  have bands: "(80 \<le> score \<longrightarrow>
            get_safety_status score = ''very_safe'' \<and> get_confidence_level score = ''very_high'')
       \<and> (60 \<le> score \<and> score \<le> 79 \<longrightarrow>
            get_safety_status score = ''safe'' \<and> get_confidence_level score = ''high'')
       \<and> (40 \<le> score \<and> score \<le> 59 \<longrightarrow>
            get_safety_status score = ''moderate'' \<and> get_confidence_level score = ''medium'')
       \<and> (25 \<le> score \<and> score \<le> 39 \<longrightarrow>
            get_safety_status score = ''risky'' \<and> get_confidence_level score = ''low'')
       \<and> (10 \<le> score \<and> score \<le> 24 \<longrightarrow>
            get_safety_status score = ''unsafe'' \<and> get_confidence_level score = ''very_low'')
       \<and> (0 \<le> score \<and> score \<le> 9 \<longrightarrow>
            get_safety_status score = ''rejected'' \<and> get_confidence_level score = ''minimal'')"
    by (simp add: get_safety_status_def get_confidence_level_def)
  have mono: "a \<le> b \<longrightarrow>
            rank status_order (get_safety_status a) \<le> rank status_order (get_safety_status b)
            \<and> rank confidence_order (get_confidence_level a)
                \<le> rank confidence_order (get_confidence_level b)"
    unfolding status_rank_eq confidence_rank_eq by simp
  have same: "rank status_order (get_safety_status score)
            = rank confidence_order (get_confidence_level score)"
    unfolding status_rank_eq confidence_rank_eq by simp
  have labels: "distinct status_order \<and> length status_order = 6
       \<and> distinct confidence_order \<and> length confidence_order = 6"
    by (simp add: status_order_def confidence_order_def)
  from bands mono same labels status_image confidence_image show ?thesis
    by blast
qed

theorem status_bands_witness:
  "get_safety_status 80 = ''very_safe'' \<and> get_confidence_level 80 = ''very_high''
   \<and> get_safety_status 79 = ''safe'' \<and> get_confidence_level 79 = ''high''
   \<and> get_safety_status 59 = ''moderate'' \<and> get_confidence_level 59 = ''medium''
   \<and> get_safety_status 25 = ''risky'' \<and> get_confidence_level 25 = ''low''
   \<and> get_safety_status 24 = ''unsafe'' \<and> get_confidence_level 24 = ''very_low''
   \<and> get_safety_status 9 = ''rejected'' \<and> get_confidence_level 9 = ''minimal''
   \<and> rank status_order (get_safety_status 9) \<le> rank status_order (get_safety_status 10)
   \<and> rank confidence_order (get_confidence_level 9)
        \<le> rank confidence_order (get_confidence_level 10)"
  using status_bands[of 80 9 10] status_bands[of 79 9 10] status_bands[of 59 9 10]
    status_bands[of 25 9 10] status_bands[of 24 9 10] status_bands[of 9 9 10]
  by simp

section \<open>The best match over all pairs\<close>








section \<open>The classification of the text\<close>

lemma sublist_map_iff:
  "sublist kw (map f s) \<longleftrightarrow> (\<exists>before part after. s = before @ part @ after \<and> map f part = kw)"
proof
  assume "sublist kw (map f s)"
  then obtain ps ss where "map f s = ps @ kw @ ss"
    by (auto simp: sublist_def)
  then obtain before rest where s: "s = before @ rest" and rest: "map f rest = kw @ ss"
    by (metis map_eq_append_conv)
  from rest obtain part after where "rest = part @ after" and "map f part = kw"
    by (metis map_eq_append_conv)
  with s show "\<exists>before part after. s = before @ part @ after \<and> map f part = kw"
    by blast
next
  assume "\<exists>before part after. s = before @ part @ after \<and> map f part = kw"
  then obtain before part after where "s = before @ part @ after" and "map f part = kw"
    by blast
  then have "map f s = map f before @ kw @ map f after" by simp
  then show "sublist kw (map f s)"
    by (simp only: sublist_appendI)
qed

lemma occurs_ignoring_case_iff:
  "occurs_ignoring_case keyword s \<longleftrightarrow> sublist (lower keyword) (lower s)"
  unfolding occurs_ignoring_case_def lower_def sublist_map_iff ..

lemma document_keywords_lower: "list_all (\<lambda>keyword. lower keyword = keyword) document_keywords"
  by code_simp

text \<open>
  Claim C7. The handler classifies the text as a document exactly when one of the keywords
  license, driver, id, identification, state, dmv, department occurs somewhere in it with
  case ignored (inside a longer word or not); in particular the empty text is no document.
\<close>

theorem is_license_iff_keyword_occurs:
  "(ocr_is_license text \<longleftrightarrow>
      (\<exists>keyword \<in> {''license'', ''driver'', ''id'', ''identification'', ''state'', ''dmv'',
                    ''department''}. occurs_ignoring_case keyword text))
   \<and> \<not> ocr_is_license []"
proof -
  have low: "\<And>keyword. keyword \<in> set document_keywords \<Longrightarrow> lower keyword = keyword"
    using document_keywords_lower by (simp add: list_all_iff)
  have "ocr_is_license text \<longleftrightarrow>
      (\<exists>keyword \<in> set document_keywords. occurs_ignoring_case keyword text)"
    using low by (auto simp: ocr_is_license_def list_ex_iff occurs_ignoring_case_iff)
  moreover have "set document_keywords = {''license'', ''driver'', ''id'', ''identification'',
      ''state'', ''dmv'', ''department''}"
    by (simp add: document_keywords_def)
  moreover have "\<not> ocr_is_license []"
    by code_simp
  ultimately show ?thesis by simp
qed

theorem is_license_iff_keyword_occurs_witness:
  "ocr_is_license ''A VALID pass''"
proof -
  have "''A VALID pass'' = ''A VAL'' @ ''ID'' @ '' pass''" by simp
  moreover have "lower ''ID'' = lower ''id''" by code_simp
  ultimately have "occurs_ignoring_case ''id'' ''A VALID pass''"
    unfolding occurs_ignoring_case_def by blast
  then show ?thesis
    using is_license_iff_keyword_occurs[of "''A VALID pass''"] by blast
qed

end
